theory Spec2Isabelle
  imports Main
begin

section \<open>Path.ts: the data model\<close>

text \<open>
  Path strings are modelled as \<^typ>\<open>string\<close>: the list of the UTF-8 bytes of a
  well-formed source string. The characters the library inspects (the two separators,
  the dot) are single bytes that occur in no multi-byte sequence, so splitting,
  prefix and suffix tests and the search for the last dot agree with the source's
  operations on code points. The two separator characters are the slash and the
  backslash (code point 0x5C).
\<close>

definition slash :: char where
  "slash = CHR ''/''"

definition backslash :: char where
  "backslash = CHR 0x5C"

definition isSep :: "char \<Rightarrow> bool" where
  "isSep c = (c = slash \<or> c = backslash)"

text \<open>\<^verbatim>\<open>String.prototype.startsWith\<close> and \<^verbatim>\<open>endsWith\<close>.\<close>

definition startsWith :: "string \<Rightarrow> string \<Rightarrow> bool" where
  "startsWith s pre = (take (length pre) s = pre)"

definition endsWith :: "string \<Rightarrow> string \<Rightarrow> bool" where
  "endsWith s suf = (length suf \<le> length s \<and> drop (length s - length suf) s = suf)"

text \<open>\<^verbatim>\<open>Array.prototype.join\<close> with an explicit separator.\<close>

fun array_join :: "string list \<Rightarrow> string \<Rightarrow> string" where
  "array_join [] sep = []"
| "array_join [x] sep = x"
| "array_join (x # y # ys) sep = x @ sep @ array_join (y # ys) sep"

section \<open>The segmenter\<close>

text \<open>
  The loop of \<^verbatim>\<open>pathSplit\<close>: \<open>arr\<close> is the array built so far and
  \<open>current\<close> the segment being read.
\<close>

fun pathSplit_loop :: "bool \<Rightarrow> string \<Rightarrow> string list \<Rightarrow> string \<Rightarrow> string list" where
  "pathSplit_loop keepEmpty [] arr current =
     (if length current \<noteq> 0 then arr @ [current] else arr)"
| "pathSplit_loop keepEmpty (c # cs) arr current =
     (if c = slash \<or> c = backslash then
        (if current \<noteq> [] \<or> keepEmpty
         then pathSplit_loop keepEmpty cs (arr @ [current]) []
         else pathSplit_loop keepEmpty cs arr current)
      else pathSplit_loop keepEmpty cs arr (current @ [c]))"

definition pathSplit :: "string \<Rightarrow> bool \<Rightarrow> string list" where
  "pathSplit path keepEmpty = pathSplit_loop keepEmpty path [] []"

section \<open>The host environment\<close>

text \<open>
  The library reads two strings of the host: \<^verbatim>\<open>window.location.origin\<close> and
  \<^verbatim>\<open>document.location.pathname\<close>. They are parameters \<open>origin\<close> and
  \<open>pathname\<close> of every function that reads them, directly or through a callee.
\<close>

section \<open>The classifier\<close>

definition isAbsolute :: "string \<Rightarrow> string \<Rightarrow> bool" where
  "isAbsolute origin path =
     ((case path of [] \<Rightarrow> False | c # _ \<Rightarrow> c = slash) \<or> startsWith path origin)"

section \<open>The normalizer\<close>

text \<open>
  The source's \<^verbatim>\<open>normalize\<close> is \<open>normalize_path\<close> here, since \<open>normalize\<close>
  is a constant of HOL. First, one round of the \<^verbatim>\<open>for\<close> loop over the segments,
  with its \<^verbatim>\<open>switch\<close>.
\<close>

definition normalize_step :: "string list \<Rightarrow> string \<Rightarrow> string list" where
  "normalize_step pathArr item =
     (if item = ''.'' then pathArr
      else if item = ''..'' then
        (if length pathArr \<noteq> 0 then
           (if last pathArr = ''..'' then pathArr @ [''..'']
            else if last pathArr = ''.'' then butlast pathArr @ [''..'']
            else butlast pathArr)
         else pathArr @ [''..''])
      else pathArr @ [item])"

fun normalize_fold :: "string list \<Rightarrow> string list \<Rightarrow> string list" where
  "normalize_fold [] pathArr = pathArr"
| "normalize_fold (item # arr) pathArr = normalize_fold arr (normalize_step pathArr item)"

text \<open>
  The \<^verbatim>\<open>while\<close> loop that shifts leading \<^verbatim>\<open>..\<close> and \<^verbatim>\<open>.\<close> entries off the
  array; on the empty array \<^verbatim>\<open>pathArr[0]\<close> is undefined and the loop stops.
\<close>

fun shift_dots :: "string list \<Rightarrow> string list" where
  "shift_dots [] = []"
| "shift_dots (x # xs) = (if x = ''..'' \<or> x = ''.'' then shift_dots xs else x # xs)"

definition normalize_path :: "string \<Rightarrow> string \<Rightarrow> string" where
  "normalize_path origin path =
     (let explicitDirectory = endsWith path ''/'';
          absoluteDirectory = isAbsolute origin path;
          arr = pathSplit path False;
          pathArr0 = normalize_fold arr [];
          pathArr = (if absoluteDirectory then shift_dots pathArr0 else pathArr0)
      in if length pathArr = 0 \<and> absoluteDirectory then ''/''
         else
           (let joined = array_join pathArr ''/'';
                pathStr0 = (if joined = [] then ''.'' else joined);
                pathStr1 = (if explicitDirectory then pathStr0 @ ''/'' else pathStr0)
            in if absoluteDirectory \<and> take 1 pathStr1 \<noteq> ''/''
               then ''/'' @ pathStr1 else pathStr1))"

section \<open>The composer\<close>

definition join :: "string \<Rightarrow> string list \<Rightarrow> string" where
  "join origin paths =
     (if length paths = 0 then ''.''
      else if length paths = 1 then normalize_path origin (paths ! 0)
      else normalize_path origin (array_join paths ''/''))"

text \<open>
  The backward scan of \<^verbatim>\<open>resolve\<close>: \<open>resolve_scan origin segs (Suc i)\<close> is the loop
  at index \<open>i\<close>; the result is the flag \<open>absolute\<close> and the sliced argument list.
\<close>

fun resolve_scan :: "string \<Rightarrow> string list \<Rightarrow> nat \<Rightarrow> bool \<times> string list" where
  "resolve_scan origin pathSegments 0 = (False, pathSegments)"
| "resolve_scan origin pathSegments (Suc i) =
     (if isAbsolute origin (pathSegments ! i) then (True, drop i pathSegments)
      else resolve_scan origin pathSegments i)"

definition resolve :: "string \<Rightarrow> string \<Rightarrow> string list \<Rightarrow> string" where
  "resolve origin pathname pathSegments =
     (case resolve_scan origin pathSegments (length pathSegments) of
        (absolute, segs) \<Rightarrow>
          (let pathArr = pathSplit
                 (if absolute then join origin segs
                  else join origin [pathname, join origin segs]) False
           in ''/'' @ array_join (shift_dots pathArr) ''/''))"

definition relative :: "string \<Rightarrow> string \<Rightarrow> string \<Rightarrow> string" where
  "relative origin from to = join origin [from, to]"

section \<open>The decomposer\<close>

text \<open>The loop of \<^verbatim>\<open>dirname\<close> that pops trailing empty segments.\<close>

function pop_empty :: "string list \<Rightarrow> string list" where
  "pop_empty arr = (if arr \<noteq> [] \<and> last arr = [] then pop_empty (butlast arr) else arr)"
  by pat_completeness auto
termination
  by (relation "measure length") auto

declare pop_empty.simps [simp del]

definition dirname :: "string \<Rightarrow> string \<Rightarrow> string" where
  "dirname origin path =
     (let arr0 = pop_empty (pathSplit path True);
          arr = (if length arr0 \<noteq> 0 then butlast arr0 else arr0);
          pathStr = array_join arr ''/''
      in if isAbsolute origin path then
           (if take 1 pathStr = ''/'' then pathStr else ''/'' @ pathStr)
         else (if pathStr = [] then ''.'' else pathStr))"

text \<open>The loop of \<^verbatim>\<open>basename\<close> that computes \<^verbatim>\<open>fullSlash\<close>.\<close>

fun fullSlash :: "string \<Rightarrow> bool" where
  "fullSlash [] = True"
| "fullSlash (c # cs) = (if c \<noteq> slash then False else fullSlash cs)"

text \<open>\<^verbatim>\<open>arr.pop() ?? ""\<close>: the last entry, or the empty string on an empty array.\<close>

definition pop_or_empty :: "string list \<Rightarrow> string" where
  "pop_or_empty arr = (if arr = [] then [] else last arr)"

text \<open>
  The optional argument \<^verbatim>\<open>ext\<close> is a \<^typ>\<open>string option\<close>; as a condition it is
  true when it is present and not the empty string.
\<close>

definition truthy :: "string option \<Rightarrow> bool" where
  "truthy s = (s \<noteq> None \<and> s \<noteq> Some [])"

definition basename :: "string \<Rightarrow> string option \<Rightarrow> string" where
  "basename path ext =
     (if fullSlash path then
        (if \<not> truthy ext \<or> ext = Some path then [] else path)
      else
        (let fileName = pop_or_empty (pathSplit path False)
         in case ext of
              None \<Rightarrow> fileName
            | Some e \<Rightarrow>
                if e \<noteq> [] \<and> endsWith fileName e \<and> length fileName > length e
                then take (length fileName - length e) fileName
                else fileName))"

text \<open>\<^verbatim>\<open>String.prototype.lastIndexOf\<close> for a single character; \<open>-1\<close> when absent.\<close>

fun lastIndexOf :: "string \<Rightarrow> char \<Rightarrow> int" where
  "lastIndexOf [] c = -1"
| "lastIndexOf (x # xs) c =
     (let r = lastIndexOf xs c
      in if r \<noteq> -1 then r + 1 else if x = c then 0 else -1)"

definition extname :: "string \<Rightarrow> string" where
  "extname path =
     (let fileName = pop_or_empty (pathSplit path False);
          index = lastIndexOf fileName CHR ''.''
      in if index = -1 \<or> index = 0 \<or> index = int (length fileName) - 1 then []
         else drop (nat index) fileName)"

text \<open>
  \<^verbatim>\<open>ParsedPath\<close>, and \<^verbatim>\<open>FormatInputPathObject = Partial<ParsedPath>\<close> with every
  field optional. The fields carry a prefix, since the source's field names are also
  the names of its parameters.
\<close>

record ParsedPath =
  pp_root :: string
  pp_dir :: string
  pp_base :: string
  pp_ext :: string
  pp_name :: string

record FormatInputPathObject =
  fi_root :: "string option"
  fi_dir :: "string option"
  fi_base :: "string option"
  fi_ext :: "string option"
  fi_name :: "string option"

definition parse :: "string \<Rightarrow> string \<Rightarrow> ParsedPath" where
  "parse origin path =
     (let root = (if startsWith path ''/'' then ''/'' else []);
          dir = dirname origin path;
          base = basename path None;
          ext = extname path;
          name = basename path (Some ext)
      in \<lparr>pp_root = root, pp_dir = dir, pp_base = base, pp_ext = ext, pp_name = name\<rparr>)"

text \<open>A \<^verbatim>\<open>ParsedPath\<close> passed where a \<^verbatim>\<open>FormatInputPathObject\<close> is expected.\<close>

definition asFormatInput :: "ParsedPath \<Rightarrow> FormatInputPathObject" where
  "asFormatInput p =
     \<lparr>fi_root = Some (pp_root p), fi_dir = Some (pp_dir p), fi_base = Some (pp_base p),
      fi_ext = Some (pp_ext p), fi_name = Some (pp_name p)\<rparr>"

section \<open>The formatter\<close>

text \<open>\<^verbatim>\<open>a ?? b\<close> and \<^verbatim>\<open>a ?? ""\<close> on optional strings.\<close>

definition nullish :: "string option \<Rightarrow> string option \<Rightarrow> string option" where
  "nullish a b = (case a of Some x \<Rightarrow> Some x | None \<Rightarrow> b)"

definition orEmpty :: "string option \<Rightarrow> string" where
  "orEmpty a = (case a of Some x \<Rightarrow> x | None \<Rightarrow> [])"

text \<open>
  The loop over the anchoring prefixes; \<open>Some r\<close> is the early \<^verbatim>\<open>return r\<close>,
  \<open>None\<close> is the loop running to its end.
\<close>

fun format_prefixes :: "string list \<Rightarrow> string \<Rightarrow> string \<Rightarrow> string option" where
  "format_prefixes [] dir joined = None"
| "format_prefixes (prefix # rest) dir joined =
     (if startsWith dir prefix \<and> \<not> startsWith joined prefix then Some (prefix @ joined)
      else format_prefixes rest dir joined)"

definition format_dir :: "FormatInputPathObject \<Rightarrow> string option" where
  "format_dir path = nullish (fi_dir path) (fi_root path)"

definition format_base :: "FormatInputPathObject \<Rightarrow> string" where
  "format_base path =
     (case fi_base path of Some b \<Rightarrow> b
      | None \<Rightarrow> orEmpty (fi_name path) @ orEmpty (fi_ext path))"

definition format :: "FormatInputPathObject \<Rightarrow> string" where
  "format path =
     (let dir = format_dir path; base = format_base path
      in if truthy dir then
           (let d = orEmpty dir;
                joined = (if endsWith d ''/'' then d @ base else d @ ''/'' @ base)
            in case format_prefixes [''./'', ''../'', ''/'', ''.''] d joined of
                 Some r \<Rightarrow> r
               | None \<Rightarrow> joined)
         else base)"

section \<open>Escaping\<close>

text \<open>
  \<^verbatim>\<open>encodeURI\<close> and \<^verbatim>\<open>encodeURIComponent\<close> are built-ins of the host language,
  modelled here from ECMA-262 (abstract operation Encode) on the UTF-8 bytes of a
  well-formed string: a byte of the unescaped set is copied, every other byte becomes
  \<^verbatim>\<open>%XX\<close> with upper-case hexadecimal digits. Both escape every byte above 0x7F, so
  on UTF-8 bytes the per-byte rule is the standard's rule.
\<close>

definition uriAlpha :: string where
  "uriAlpha = ''abcdefghijklmnopqrstuvwxyzABCDEFGHIJKLMNOPQRSTUVWXYZ''"

definition decimalDigit :: string where
  "decimalDigit = ''0123456789''"

definition uriMark :: string where
  "uriMark = ''-_.!~*'' @ [CHR 0x27] @ ''()''"

definition uriReserved :: string where
  "uriReserved = '';/?:@&=+$,''"

definition uriUnescaped :: string where
  "uriUnescaped = uriAlpha @ decimalDigit @ uriMark"

definition hexDigit :: "nat \<Rightarrow> char" where
  "hexDigit n = ''0123456789ABCDEF'' ! (n mod 16)"

definition percentEncode :: "char \<Rightarrow> string" where
  "percentEncode c =
     [CHR ''%'', hexDigit ((of_char c :: nat) div 16), hexDigit ((of_char c :: nat) mod 16)]"

fun Encode :: "string \<Rightarrow> string \<Rightarrow> string" where
  "Encode [] unescapedSet = []"
| "Encode (c # cs) unescapedSet =
     (if c \<in> set unescapedSet then [c] else percentEncode c) @ Encode cs unescapedSet"

definition encodeURI :: "string \<Rightarrow> string" where
  "encodeURI uri = Encode uri (uriReserved @ uriUnescaped @ ''#'')"

definition encodeURIComponent :: "string \<Rightarrow> string" where
  "encodeURIComponent uriComponent = Encode uriComponent uriUnescaped"

definition escape :: "string \<Rightarrow> string" where
  "escape path = encodeURI path"

section \<open>The value wrapper\<close>

text \<open>The value wrapper holds one path string; iterating it yields its segments.\<close>

datatype Path = Path (value_of: string)

definition Path_iterator :: "Path \<Rightarrow> string list" where
  "Path_iterator p = pathSplit (value_of p) False"

definition Path_toString :: "Path \<Rightarrow> string" where
  "Path_toString p = value_of p"

definition Path_escape :: "Path \<Rightarrow> Path" where
  "Path_escape p = Path (escape (value_of p))"

section \<open>Auxiliary notions for the proofs\<close>

text \<open>A well-formed segment: non-empty and free of both separators.\<close>

definition segment_ok :: "string \<Rightarrow> bool" where
  "segment_ok s = (s \<noteq> [] \<and> slash \<notin> set s \<and> backslash \<notin> set s)"

text \<open>
  The array \<^verbatim>\<open>pathArr\<close> of \<^verbatim>\<open>normalize\<close> after its two loops, from which the
  result string is assembled.
\<close>

definition norm_segs :: "string \<Rightarrow> string \<Rightarrow> string list" where
  "norm_segs origin path =
     (let pathArr0 = normalize_fold (pathSplit path False) []
      in if isAbsolute origin path then shift_dots pathArr0 else pathArr0)"

text \<open>
  The segment arrays that the loop of \<^verbatim>\<open>normalize\<close> can produce: some entries
  \<^verbatim>\<open>..\<close>, then entries that are neither \<^verbatim>\<open>.\<close> nor \<^verbatim>\<open>..\<close>.
\<close>

definition plain :: "string \<Rightarrow> bool" where
  "plain s = (s \<noteq> ''.'' \<and> s \<noteq> ''..'')"

fun canon :: "string list \<Rightarrow> bool" where
  "canon [] = True"
| "canon (x # xs) = (if x = ''..'' then canon xs else list_all plain (x # xs))"

text \<open>A path string has a redundant separator when two separators are adjacent.\<close>

fun redundantSep :: "string \<Rightarrow> bool" where
  "redundantSep (a # b # cs) = ((isSep a \<and> isSep b) \<or> redundantSep (b # cs))"
| "redundantSep _ = False"

section \<open>Properties of the segmenter\<close>

lemma pathSplit_loop_segments:
  assumes "\<forall>s \<in> set arr. segment_ok s"
    and "slash \<notin> set current" and "backslash \<notin> set current"
  shows "\<forall>s \<in> set (pathSplit_loop False path arr current). segment_ok s"
  using assms
proof (induction path arbitrary: arr current)
  case Nil
  then show ?case by (simp add: segment_ok_def)
next
  case (Cons c cs)
  show ?case
  proof (cases "c = slash \<or> c = backslash")
    case sep: True
    show ?thesis
    proof (cases "current = []")
      case True
      have "\<forall>s \<in> set (pathSplit_loop False cs arr []). segment_ok s"
        using Cons.prems(1) by (rule Cons.IH) simp_all
      with sep True show ?thesis by simp
    next
      case False
      with Cons.prems have "\<forall>s \<in> set (arr @ [current]). segment_ok s"
        by (simp add: segment_ok_def)
      then have "\<forall>s \<in> set (pathSplit_loop False cs (arr @ [current]) []). segment_ok s"
        by (rule Cons.IH) simp_all
      with sep False show ?thesis by simp
    qed
  next
    case False
    with Cons.prems have "\<forall>s \<in> set (pathSplit_loop False cs arr (current @ [c])). segment_ok s"
      by (intro Cons.IH) auto
    with False show ?thesis by simp
  qed
qed

text \<open>
  C10: every segment that \<^verbatim>\<open>pathSplit\<close> produces with empty segments dropped, and
  hence every segment that iterating a \<^verbatim>\<open>Path\<close> yields, is a non-empty string
  containing neither a slash nor a backslash.
\<close>

theorem C10_segments_nonempty_sepfree:
  "(\<forall>s \<in> set (pathSplit path False). s \<noteq> [] \<and> CHR ''/'' \<notin> set s \<and> CHR 0x5C \<notin> set s)
   \<and> (\<forall>s \<in> set (Path_iterator p). s \<noteq> [] \<and> CHR ''/'' \<notin> set s \<and> CHR 0x5C \<notin> set s)"
proof -
  have "\<forall>s \<in> set (pathSplit_loop False q [] []). segment_ok s" for q
    by (rule pathSplit_loop_segments) simp_all
  then show ?thesis
    by (simp add: pathSplit_def Path_iterator_def segment_ok_def slash_def backslash_def)
qed

text \<open>C10 at \<^verbatim>\<open>/a//b\<close>, whose last segment is \<^verbatim>\<open>b\<close>.\<close>

theorem C10_segments_witness:
  "''b'' \<in> set (pathSplit ''/a//b'' False) \<and> ''b'' \<in> set (Path_iterator (Path ''/a//b'')) \<and>
   ''b'' \<noteq> [] \<and> CHR ''/'' \<notin> set ''b'' \<and> CHR 0x5C \<notin> set ''b''"
  using C10_segments_nonempty_sepfree [of "''/a//b''" "Path ''/a//b''"]
  by (simp add: pathSplit_def Path_iterator_def slash_def backslash_def)

section \<open>Properties of join, format, basename and escape\<close>

lemma array_join_Cons: "array_join (x # xs) sep = x @ concat (map (\<lambda>s. sep @ s) xs)"
  by (induction xs arbitrary: x) simp_all

text \<open>
  C8: \<^verbatim>\<open>join\<close> of no argument is \<^verbatim>\<open>.\<close>; of one argument it is the argument
  normalized; of two or more arguments it is the normalization of the arguments
  concatenated with a slash between them, so that the classifier only ever sees the
  concatenated string.
\<close>

theorem C8_join:
  "join origin [] = ''.'' \<and>
   join origin [p] = normalize_path origin p \<and>
   join origin (p # q # ps) =
     normalize_path origin (p @ concat (map (\<lambda>s. ''/'' @ s) (q # ps)))"
  by (simp add: join_def array_join_Cons del: array_join.simps)

lemma startsWith_append: "startsWith d pre \<Longrightarrow> startsWith (d @ x) pre"
  by (metis append_eq_conv_conj append.assoc startsWith_def)

lemma format_prefixes_None: "format_prefixes prefixes d (d @ x) = None"
  by (induction prefixes) (simp_all add: startsWith_append)

lemma format_with_dir:
  assumes "format_dir path = Some d" and "d \<noteq> []"
  shows "format path =
       (if endsWith d ''/'' then d @ format_base path else d @ ''/'' @ format_base path)"
proof -
  have t: "truthy (format_dir path)" and o: "orEmpty (format_dir path) = d"
    using assms by (simp_all add: truthy_def orEmpty_def)
  have n: "format_prefixes ps d (if endsWith d ''/'' then d @ b else d @ ''/'' @ b) = None"
    for ps b
    using format_prefixes_None [of ps d] by (cases "endsWith d ''/''") simp_all
  show ?thesis
    by (simp add: format_def Let_def t o n del: format_prefixes.simps)
qed

text \<open>
  C9: when the directory of the input record (\<^verbatim>\<open>dir\<close>, or \<^verbatim>\<open>root\<close> when
  \<^verbatim>\<open>dir\<close> is absent) is a non-empty string, \<^verbatim>\<open>format\<close> returns the directory
  followed by the base, with a slash between them unless the directory ends with one;
  the loop over the anchoring prefixes never returns.
\<close>

theorem C9_format:
  assumes "format_dir path = Some d" and "d \<noteq> []"
  shows "format path =
       (if endsWith d ''/'' then d @ format_base path else d @ ''/'' @ format_base path)
     \<and> format_prefixes [''./'', ''../'', ''/'', ''.''] d
          (if endsWith d ''/'' then d @ format_base path else d @ ''/'' @ format_base path)
        = None"
proof
  show "format path =
       (if endsWith d ''/'' then d @ format_base path else d @ ''/'' @ format_base path)"
    using assms by (rule format_with_dir)
  show "format_prefixes [''./'', ''../'', ''/'', ''.''] d
          (if endsWith d ''/'' then d @ format_base path else d @ ''/'' @ format_base path)
        = None"
    using format_prefixes_None [of _ d] by (cases "endsWith d ''/''") simp_all
qed

text \<open>
  C9 at two records: the root \<^verbatim>\<open>./\<close> standing in for the directory, and a
  directory without a trailing slash.
\<close>

theorem C9_format_witness:
  "format \<lparr>fi_root = Some ''./'', fi_dir = None, fi_base = None, fi_ext = Some ''.txt'',
      fi_name = Some ''c''\<rparr> = ''./c.txt'' \<and>
   format \<lparr>fi_root = None, fi_dir = Some ''../a'', fi_base = Some ''b'', fi_ext = None,
      fi_name = None\<rparr> = ''../a/b''"
  using
    C9_format [of "\<lparr>fi_root = Some ''./'', fi_dir = None, fi_base = None,
      fi_ext = Some ''.txt'', fi_name = Some ''c''\<rparr>" "''./''"]
    C9_format [of "\<lparr>fi_root = None, fi_dir = Some ''../a'', fi_base = Some ''b'',
      fi_ext = None, fi_name = None\<rparr>" "''../a''"]
  by (simp add: format_dir_def format_base_def nullish_def orEmpty_def endsWith_def)

lemma fullSlash_iff: "fullSlash path \<longleftrightarrow> set path \<subseteq> {slash}"
  by (induction path) auto

text \<open>
  C3, as stated, fails: \<^verbatim>\<open>basename("///", "///")\<close> is the empty string, not
  \<^verbatim>\<open>///\<close>; a path made of a backslash is not treated as all-separator, so with an
  extension that differs from it the result is the empty last segment, not the path;
  and an empty \<^verbatim>\<open>ext\<close> counts as absent.
\<close>

theorem C3_basename_counterexample:
  "basename ''///'' (Some ''///'') \<noteq> ''///'' \<and>
   basename [CHR 0x5C] (Some ''.txt'') \<noteq> [CHR 0x5C] \<and>
   basename ''///'' (Some []) \<noteq> ''///''"
  by (simp add: basename_def truthy_def slash_def pathSplit_def pop_or_empty_def
      backslash_def endsWith_def)

text \<open>
  C3, amended: for a path that is empty or consists of slashes only, \<^verbatim>\<open>basename\<close>
  returns the empty string when \<^verbatim>\<open>ext\<close> is absent, empty or equal to the path, and
  the path unchanged when \<^verbatim>\<open>ext\<close> is a non-empty string that differs from the path.
\<close>

theorem C3_basename_all_slashes:
  assumes "set path \<subseteq> {CHR ''/''}"
  shows "basename path ext =
     (if ext = None \<or> ext = Some [] \<or> ext = Some path then [] else path)"
  using assms by (auto simp add: basename_def fullSlash_iff truthy_def slash_def)

text \<open>C3, amended, at \<^verbatim>\<open>///\<close> and at the empty path.\<close>

theorem C3_basename_witness:
  "basename ''///'' None = [] \<and> basename ''///'' (Some ''///'') = [] \<and>
   basename ''///'' (Some ''.txt'') = ''///'' \<and> basename [] (Some ''.txt'') = []"
  using C3_basename_all_slashes [of "''///''" None]
    C3_basename_all_slashes [of "''///''" "Some ''///''"]
    C3_basename_all_slashes [of "''///''" "Some ''.txt''"]
    C3_basename_all_slashes [of "[]" "Some ''.txt''"]
  by simp

text \<open>
  C4, as stated, fails: \<^verbatim>\<open>escape\<close> calls \<^verbatim>\<open>encodeURI\<close>, which keeps the slash and
  the colon, where \<^verbatim>\<open>encodeURIComponent\<close> escapes them.
\<close>

theorem C4_escape_counterexample:
  "escape ''a/b:c'' = ''a/b:c'' \<and> encodeURIComponent ''a/b:c'' = ''a%2Fb%3Ac'' \<and>
   escape ''a/b:c'' \<noteq> encodeURIComponent ''a/b:c''"
  by (simp add: escape_def encodeURI_def encodeURIComponent_def uriReserved_def
      uriUnescaped_def uriAlpha_def decimalDigit_def uriMark_def percentEncode_def
      hexDigit_def)

text \<open>
  C4, amended: \<^verbatim>\<open>escape\<close> percent-encodes its argument by the rule of
  \<^verbatim>\<open>encodeURI\<close>, under which a slash and a colon are kept as they are, and
  \<^verbatim>\<open>Path.escape\<close> returns a new wrapped instance holding that string.
\<close>

theorem C4_escape_encodeURI:
  "escape p = encodeURI p \<and>
   Path_escape pv = Path (encodeURI (value_of pv)) \<and>
   escape (''/'' @ p) = ''/'' @ escape p \<and>
   escape ('':'' @ p) = '':'' @ escape p"
  by (simp add: escape_def Path_escape_def encodeURI_def uriReserved_def)

section \<open>The segments of a joined string\<close>

lemma pathSplit_loop_run:
  "slash \<notin> set s \<Longrightarrow> backslash \<notin> set s \<Longrightarrow>
   pathSplit_loop k (s @ rest) arr cur = pathSplit_loop k rest arr (cur @ s)"
  by (induction s arbitrary: cur) auto

lemma pathSplit_loop_join:
  assumes "\<forall>s \<in> set ss. segment_ok s" and "ss \<noteq> []"
  shows "pathSplit_loop k (array_join ss ''/'' @ rest) arr [] =
         pathSplit_loop k rest (arr @ butlast ss) (last ss)"
  using assms
proof (induction ss "''/''" arbitrary: arr rule: array_join.induct)
  case 1
  then show ?case by simp
next
  case (2 x)
  then show ?case
    using pathSplit_loop_run [of x k rest arr "[]"] by (simp add: segment_ok_def)
next
  case (3 x y ys)
  have x: "slash \<notin> set x" "backslash \<notin> set x" "x \<noteq> []"
    using "3.prems" by (simp_all add: segment_ok_def)
  have "pathSplit_loop k (array_join (x # y # ys) ''/'' @ rest) arr [] =
        pathSplit_loop k (slash # array_join (y # ys) ''/'' @ rest) arr x"
    using pathSplit_loop_run [OF x(1,2), of k _ arr "[]"] by (simp add: slash_def)
  also have "\<dots> = pathSplit_loop k (array_join (y # ys) ''/'' @ rest) (arr @ [x]) []"
    using x(3) by simp
  also have "\<dots> = pathSplit_loop k rest ((arr @ [x]) @ butlast (y # ys)) (last (y # ys))"
    using "3.prems" by (intro "3.hyps") simp_all
  finally show ?case by simp
qed

lemma pathSplit_join:
  assumes "\<forall>s \<in> set ss. segment_ok s"
  shows "pathSplit (array_join ss ''/'') k = ss"
proof (cases "ss = []")
  case True
  then show ?thesis by (simp add: pathSplit_def)
next
  case False
  then have l: "last ss \<noteq> []" using assms by (simp add: segment_ok_def)
  show ?thesis
    using pathSplit_loop_join [OF assms False, of k "[]" "[]"] False l
    by (simp add: pathSplit_def)
qed

lemma pathSplit_slash_join:
  assumes "\<forall>s \<in> set ss. segment_ok s"
  shows "pathSplit (''/'' @ array_join ss ''/'') False = ss"
  using pathSplit_join [OF assms, of False] by (simp add: pathSplit_def slash_def)

lemma pathSplit_join_slash:
  assumes "\<forall>s \<in> set ss. segment_ok s"
  shows "pathSplit (array_join ss ''/'' @ ''/'') False = ss"
proof (cases "ss = []")
  case True
  then show ?thesis by (simp add: pathSplit_def slash_def)
next
  case False
  then have l: "last ss \<noteq> []" using assms by (simp add: segment_ok_def)
  show ?thesis
    using pathSplit_loop_join [OF assms False, of False "''/''" "[]"] False l
    by (simp add: pathSplit_def slash_def)
qed

lemma pathSplit_slash_join_slash:
  assumes "\<forall>s \<in> set ss. segment_ok s"
  shows "pathSplit (''/'' @ array_join ss ''/'' @ ''/'') False = ss"
  using pathSplit_join_slash [OF assms] by (simp add: pathSplit_def slash_def)

lemma pathSplit_segment_ok: "\<forall>s \<in> set (pathSplit path False). segment_ok s"
  unfolding pathSplit_def by (rule pathSplit_loop_segments) simp_all

lemma segment_ok_dotdot: "segment_ok ''..''" and segment_ok_dot: "segment_ok ''.''"
  by (simp_all add: segment_ok_def slash_def backslash_def)

lemma normalize_step_segment_ok:
  assumes "\<forall>s \<in> set pathArr. segment_ok s" and "segment_ok item"
  shows "\<forall>s \<in> set (normalize_step pathArr item). segment_ok s"
  using assms segment_ok_dotdot
  by (auto simp add: normalize_step_def dest: in_set_butlastD)

lemma normalize_fold_segment_ok:
  assumes "\<forall>s \<in> set arr. segment_ok s" and "\<forall>s \<in> set pathArr. segment_ok s"
  shows "\<forall>s \<in> set (normalize_fold arr pathArr). segment_ok s"
  using assms
proof (induction arr arbitrary: pathArr)
  case Nil
  then show ?case by simp
next
  case (Cons item arr)
  have "\<forall>s \<in> set (normalize_step pathArr item). segment_ok s"
    using Cons.prems by (intro normalize_step_segment_ok) simp_all
  then show ?case using Cons by simp
qed

lemma set_shift_dots: "set (shift_dots xs) \<subseteq> set xs"
  by (induction xs) auto

lemma shift_dots_head: "take 1 (shift_dots xs) \<noteq> [''..''] \<and> take 1 (shift_dots xs) \<noteq> [''.'']"
  by (induction xs) auto

section \<open>The shape of a normalized path\<close>

lemma norm_segs_segment_ok: "\<forall>s \<in> set (norm_segs origin path). segment_ok s"
proof -
  have "\<forall>s \<in> set (normalize_fold (pathSplit path False) []). segment_ok s"
    by (rule normalize_fold_segment_ok) (simp_all add: pathSplit_segment_ok)
  then show ?thesis
    using set_shift_dots by (auto simp add: norm_segs_def Let_def)
qed

lemma array_join_hd:
  assumes "\<forall>s \<in> set ss. segment_ok s" and "ss \<noteq> []"
  shows "array_join ss ''/'' \<noteq> [] \<and> hd (array_join ss ''/'') \<noteq> slash
    \<and> last (array_join ss ''/'') \<noteq> slash"
  using assms
proof (induction ss "''/''" rule: array_join.induct)
  case 1
  then show ?case by simp
next
  case (2 x)
  then show ?case by (cases x) (auto simp add: segment_ok_def dest: last_in_set)
next
  case (3 x y ys)
  then show ?case by (cases x) (auto simp add: segment_ok_def)
qed

lemma take1_hd: "xs \<noteq> [] \<Longrightarrow> take 1 xs = [hd xs]"
  by (cases xs) simp_all

lemma normalize_path_shape:
  "normalize_path origin path =
     (if norm_segs origin path = [] \<and> isAbsolute origin path then ''/''
      else (if isAbsolute origin path then ''/'' else [])
         @ (if norm_segs origin path = [] then ''.'' else array_join (norm_segs origin path) ''/'')
         @ (if endsWith path ''/'' then ''/'' else []))"
proof (cases "norm_segs origin path = []")
  case True
  then show ?thesis
    by (cases "isAbsolute origin path") (simp_all add: normalize_path_def norm_segs_def Let_def)
next
  case False
  have j: "array_join (norm_segs origin path) ''/'' \<noteq> []"
    and h: "hd (array_join (norm_segs origin path) ''/'') \<noteq> slash"
    using array_join_hd [OF norm_segs_segment_ok False] by simp_all
  have t: "take 1 (array_join (norm_segs origin path) ''/'' @ x) \<noteq> ''/''" for x
    using j h by (cases "array_join (norm_segs origin path) ''/''") (simp_all add: slash_def)
  have t': "take 1 (array_join (norm_segs origin path) ''/'') \<noteq> ''/''"
    using t [of "[]"] by simp
  show ?thesis
    using False j t t'
    by (cases "isAbsolute origin path"; cases "endsWith path ''/''")
       (simp_all add: normalize_path_def norm_segs_def Let_def)
qed

lemma pathSplit_normalize_path:
  "pathSplit (normalize_path origin path) False =
     (if norm_segs origin path = [] \<and> \<not> isAbsolute origin path then [''.'']
      else norm_segs origin path)"
proof (cases "norm_segs origin path = []")
  case True
  then show ?thesis
    by (simp add: normalize_path_shape pathSplit_def slash_def backslash_def)
next
  case False
  note ok = norm_segs_segment_ok [of origin path]
  show ?thesis
    using False pathSplit_join [OF ok, of False] pathSplit_slash_join [OF ok]
      pathSplit_join_slash [OF ok] pathSplit_slash_join_slash [OF ok]
    by (simp add: normalize_path_shape)
qed

text \<open>
  C7: when \<^verbatim>\<open>isAbsolute(p)\<close> holds, \<^verbatim>\<open>normalize(p)\<close> begins with a slash and its
  segment sequence does not begin with \<^verbatim>\<open>..\<close> (nor with \<^verbatim>\<open>.\<close>).
\<close>

theorem C7_normalize_absolute:
  assumes "isAbsolute origin p"
  shows "startsWith (normalize_path origin p) ''/'' \<and>
         take 1 (pathSplit (normalize_path origin p) False) \<noteq> [''..''] \<and>
         take 1 (pathSplit (normalize_path origin p) False) \<noteq> [''.'']"
proof -
  have "startsWith (normalize_path origin p) ''/''"
    using assms by (simp add: normalize_path_shape startsWith_def)
  moreover have "pathSplit (normalize_path origin p) False
      = shift_dots (normalize_fold (pathSplit p False) [])"
    using assms by (simp add: pathSplit_normalize_path norm_segs_def)
  ultimately show ?thesis
    using shift_dots_head by simp
qed

text \<open>C7 at a path that climbs above the root twice.\<close>

theorem C7_normalize_absolute_witness:
  "isAbsolute ''http://localhost'' ''/../../a/./b'' \<and>
   normalize_path ''http://localhost'' ''/../../a/./b'' = ''/a/b'' \<and>
   startsWith (normalize_path ''http://localhost'' ''/../../a/./b'') ''/'' \<and>
   take 1 (pathSplit (normalize_path ''http://localhost'' ''/../../a/./b'') False) \<noteq> [''..'']"
proof -
  have s: "pathSplit ''/../../a/./b'' False = [''..'', ''..'', ''a'', ''.'', ''b'']"
    by (simp add: pathSplit_def slash_def backslash_def)
  have a: "isAbsolute ''http://localhost'' ''/../../a/./b''"
    by (simp add: isAbsolute_def slash_def)
  have n: "normalize_path ''http://localhost'' ''/../../a/./b'' = ''/a/b''"
    by (simp add: normalize_path_def s a endsWith_def normalize_step_def)
  show ?thesis
    using C7_normalize_absolute [OF a] a n by simp
qed

lemma join_segments_shift:
  "\<forall>s \<in> set (shift_dots (pathSplit x False)). segment_ok s"
  using set_shift_dots [of "pathSplit x False"] pathSplit_segment_ok [of x] by auto

text \<open>
  C5: for every argument list, current location and origin, \<^verbatim>\<open>resolve\<close> returns a
  string that begins with a slash and whose segment sequence begins neither with
  \<^verbatim>\<open>.\<close> nor with \<^verbatim>\<open>..\<close>.
\<close>

theorem C5_resolve_absolute:
  "startsWith (resolve origin pathname pathSegments) ''/'' \<and>
   take 1 (pathSplit (resolve origin pathname pathSegments) False) \<noteq> [''.''] \<and>
   take 1 (pathSplit (resolve origin pathname pathSegments) False) \<noteq> [''..'']"
proof -
  obtain absolute segs where
    s: "resolve_scan origin pathSegments (length pathSegments) = (absolute, segs)"
    by (cases "resolve_scan origin pathSegments (length pathSegments)")
  define x where "x = (if absolute then join origin segs
                  else join origin [pathname, join origin segs])"
  have r: "resolve origin pathname pathSegments
      = ''/'' @ array_join (shift_dots (pathSplit x False)) ''/''"
    by (simp add: resolve_def s x_def Let_def)
  have "pathSplit (resolve origin pathname pathSegments) False = shift_dots (pathSplit x False)"
    unfolding r by (rule pathSplit_slash_join) (rule join_segments_shift)
  then show ?thesis
    using shift_dots_head [of "pathSplit x False"] by (simp add: r startsWith_def)
qed

section \<open>Idempotence of normalize\<close>

lemma canon_Nil: "canon []"
  by simp

lemma canon_all_dotdot: "\<forall>s \<in> set xs. s = ''..'' \<Longrightarrow> canon xs"
  by (induction xs) simp_all

lemma plain_canon: "list_all plain xs \<Longrightarrow> canon xs"
  by (cases xs) (simp_all add: plain_def)

lemma canon_snoc_plain: "canon xs \<Longrightarrow> plain x \<Longrightarrow> canon (xs @ [x])"
proof (induction xs)
  case Nil
  then show ?case by (simp add: plain_def)
next
  case (Cons a xs)
  show ?case
  proof (cases "a = ''..''")
    case True
    then show ?thesis using Cons by simp
  next
    case False
    then show ?thesis using Cons.prems by simp
  qed
qed

lemma canon_last_dotdot:
  "canon xs \<Longrightarrow> xs \<noteq> [] \<Longrightarrow> last xs = ''..'' \<Longrightarrow> \<forall>s \<in> set xs. s = ''..''"
proof (induction xs)
  case Nil
  then show ?case by simp
next
  case (Cons x xs)
  show ?case
  proof (cases "x = ''..''")
    case True
    show ?thesis
    proof (cases "xs = []")
      case True
      then show ?thesis using \<open>x = ''..''\<close> by simp
    next
      case False
      have "canon xs" using Cons.prems(1) True by simp
      moreover have "last xs = ''..''" using Cons.prems(3) False by simp
      ultimately have "\<forall>s \<in> set xs. s = ''..''" using False by (intro Cons.IH)
      then show ?thesis using True by simp
    qed
  next
    case False
    then have "list_all plain (x # xs)" using Cons.prems(1) by simp
    then have "plain (last (x # xs))"
      using last_in_set [of "x # xs"] unfolding list_all_iff by blast
    then show ?thesis using Cons.prems(3) by (simp add: plain_def)
  qed
qed

lemma list_all_butlast: "list_all P xs \<Longrightarrow> list_all P (butlast xs)"
  unfolding list_all_iff by (blast dest: in_set_butlastD)

lemma canon_butlast: "canon xs \<Longrightarrow> canon (butlast xs)"
proof (induction xs)
  case Nil
  then show ?case by simp
next
  case (Cons x xs)
  show ?case
  proof (cases "x = ''..''")
    case True
    then show ?thesis using Cons by simp
  next
    case False
    then have "list_all plain (x # xs)" using Cons.prems by simp
    then have "list_all plain (butlast (x # xs))" by (rule list_all_butlast)
    then show ?thesis by (rule plain_canon)
  qed
qed

lemma canon_no_dot: "canon xs \<Longrightarrow> ''.'' \<notin> set xs"
proof (induction xs)
  case Nil
  then show ?case by simp
next
  case (Cons x xs)
  show ?case
  proof (cases "x = ''..''")
    case True
    then show ?thesis using Cons by simp
  next
    case False
    then have "list_all plain (x # xs)" using Cons.prems by simp
    then show ?thesis unfolding list_all_iff plain_def by blast
  qed
qed

lemma canon_normalize_step:
  assumes "canon xs"
  shows "canon (normalize_step xs item)"
proof -
  consider "item = ''.''" | "item = ''..''" "xs = []"
    | "item = ''..''" "xs \<noteq> []" "last xs = ''..''"
    | "item = ''..''" "xs \<noteq> []" "last xs \<noteq> ''..''"
    | "plain item"
    by (auto simp add: plain_def)
  then show ?thesis
  proof cases
    case 1
    then show ?thesis using assms by (simp add: normalize_step_def)
  next
    case 2
    then show ?thesis by (simp add: normalize_step_def)
  next
    case 3
    then have "\<forall>s \<in> set (xs @ [''..'']). s = ''..''"
      using canon_last_dotdot [OF assms] by simp
    then have "canon (xs @ [''..''])" by (rule canon_all_dotdot)
    then show ?thesis using 3 by (simp add: normalize_step_def)
  next
    case 4
    have "last xs \<noteq> ''.''"
      using canon_no_dot [OF assms] 4(2) last_in_set by metis
    then show ?thesis
      using 4 canon_butlast [OF assms] by (simp add: normalize_step_def)
  next
    case 5
    then show ?thesis
      using canon_snoc_plain [OF assms] by (simp add: normalize_step_def plain_def)
  qed
qed

lemma canon_normalize_fold: "canon xs \<Longrightarrow> canon (normalize_fold arr xs)"
  by (induction arr arbitrary: xs) (simp_all add: canon_normalize_step)

lemma canon_append_left: "canon (ys @ xs) \<Longrightarrow> canon ys"
proof (induction ys)
  case Nil
  then show ?case by simp
next
  case (Cons y ys)
  show ?case
  proof (cases "y = ''..''")
    case True
    then show ?thesis using Cons by simp
  next
    case False
    then show ?thesis using Cons.prems by simp
  qed
qed

lemma canon_middle:
  assumes "canon (ys @ x # xs)"
  shows "x \<noteq> ''.''" and "x = ''..'' \<Longrightarrow> \<forall>s \<in> set ys. s = ''..''"
proof -
  have "''.'' \<notin> set (ys @ x # xs)" using assms by (rule canon_no_dot)
  then show "x \<noteq> ''.''" by auto
  have c: "canon ((ys @ [x]))" using canon_append_left [of "ys @ [x]" xs] assms by simp
  show "\<forall>s \<in> set ys. s = ''..''" if "x = ''..''"
    using canon_last_dotdot [OF c] that by simp
qed

lemma normalize_fold_canon:
  "canon (ys @ xs) \<Longrightarrow> normalize_fold xs ys = ys @ xs"
proof (induction xs arbitrary: ys)
  case Nil
  then show ?case by simp
next
  case (Cons x xs)
  have s: "normalize_step ys x = ys @ [x]"
  proof (cases "x = ''..''")
    case True
    then have "ys = [] \<or> last ys = ''..''"
      using canon_middle(2) [OF Cons.prems] last_in_set [of ys] by blast
    then show ?thesis using True by (auto simp add: normalize_step_def)
  next
    case False
    then show ?thesis using canon_middle(1) [OF Cons.prems] by (simp add: normalize_step_def)
  qed
  have "normalize_fold xs (ys @ [x]) = (ys @ [x]) @ xs"
    using Cons.prems by (intro Cons.IH) simp
  then show ?case using s by simp
qed

lemma shift_dots_idem: "shift_dots (shift_dots xs) = shift_dots xs"
  by (induction xs) auto

lemma canon_shift_dots: "canon xs \<Longrightarrow> canon (shift_dots xs)"
proof (induction xs)
  case Nil
  then show ?case by simp
next
  case (Cons x xs)
  show ?case
  proof (cases "x = ''..''")
    case True
    then show ?thesis using Cons by simp
  next
    case False
    then have "x \<noteq> ''.''" using Cons.prems by (simp add: plain_def)
    then show ?thesis using False Cons.prems by simp
  qed
qed

lemma canon_norm_segs: "canon (norm_segs origin path)"
proof -
  have c: "canon (normalize_fold (pathSplit path False) [])"
    by (rule canon_normalize_fold) simp
  show ?thesis
    using c canon_shift_dots [OF c] by (simp add: norm_segs_def Let_def)
qed

lemma normalize_fold_norm_segs:
  "normalize_fold (norm_segs origin path) [] = norm_segs origin path"
  using normalize_fold_canon [of "[]" "norm_segs origin path"] canon_norm_segs by simp

lemma shift_dots_norm_segs:
  "isAbsolute origin path \<Longrightarrow> shift_dots (norm_segs origin path) = norm_segs origin path"
  by (simp add: norm_segs_def shift_dots_idem)

lemma normalize_path_root: "normalize_path origin ''/'' = ''/''"
  by (simp add: normalize_path_def isAbsolute_def slash_def pathSplit_def)

lemma endsWith_slash: "endsWith s ''/'' \<longleftrightarrow> s \<noteq> [] \<and> last s = slash"
proof (cases s rule: rev_cases)
  case Nil
  then show ?thesis by (simp add: endsWith_def)
next
  case (snoc ys y)
  then show ?thesis by (auto simp add: endsWith_def slash_def)
qed

lemma isAbsolute_slash: "isAbsolute origin (slash # s)"
  by (simp add: isAbsolute_def)

lemma normalize_path_again:
  assumes "isAbsolute origin (normalize_path origin p) = isAbsolute origin p"
  shows "normalize_path origin (normalize_path origin p) = normalize_path origin p"
proof (cases "norm_segs origin p = [] \<and> isAbsolute origin p")
  case True
  then have "normalize_path origin p = ''/''" by (simp add: normalize_path_shape)
  then show ?thesis by (simp add: normalize_path_root)
next
  case False
  define n where "n = normalize_path origin p"
  define S where "S = norm_segs origin p"
  define A where "A = isAbsolute origin p"
  define E where "E = endsWith p ''/''"
  define body where "body = (if S = [] then ''.'' else array_join S ''/'')"
  have F: "\<not> (S = [] \<and> A)" using False by (simp add: S_def A_def)
  have ok: "\<forall>s \<in> set S. segment_ok s" unfolding S_def by (rule norm_segs_segment_ok)
  have body: "body \<noteq> []" "last body \<noteq> slash"
    using array_join_hd [OF ok] by (auto simp add: body_def slash_def)
  have shape: "normalize_path origin q =
      (if norm_segs origin q = [] \<and> isAbsolute origin q then ''/''
       else (if isAbsolute origin q then ''/'' else [])
         @ (if norm_segs origin q = [] then ''.'' else array_join (norm_segs origin q) ''/'')
         @ (if endsWith q ''/'' then ''/'' else []))" for q
    by (rule normalize_path_shape)
  have n: "n = (if A then ''/'' else []) @ body @ (if E then ''/'' else [])"
    unfolding n_def shape [of p] using F by (simp add: S_def A_def E_def body_def)
  have A': "isAbsolute origin n = A"
    using assms by (simp add: n_def A_def)
  have E': "endsWith n ''/'' = E"
  proof (cases E)
    case True
    then show ?thesis by (simp add: n endsWith_slash slash_def)
  next
    case False
    then have "last n = last body" using body(1) by (simp add: n)
    then show ?thesis using False body by (simp add: endsWith_slash n)
  qed
  have split: "pathSplit n False = (if S = [] then [''.''] else S)"
    using False unfolding n_def S_def by (simp add: pathSplit_normalize_path)
  have segs: "norm_segs origin n = S"
  proof (cases "S = []")
    case True
    then have "\<not> A" using F by simp
    then show ?thesis
      unfolding norm_segs_def split A' using True by (simp add: normalize_step_def)
  next
    case nonempty: False
    have "normalize_fold S [] = S"
      unfolding S_def by (rule normalize_fold_norm_segs)
    moreover have "A \<Longrightarrow> shift_dots S = S"
      unfolding S_def A_def by (rule shift_dots_norm_segs)
    ultimately show ?thesis
      unfolding norm_segs_def split A' using nonempty by simp
  qed
  have "normalize_path origin n = (if A then ''/'' else []) @ body @ (if E then ''/'' else [])"
    unfolding shape [of n] segs A' E' using F by (simp add: body_def)
  then have "normalize_path origin n = n" using n by simp
  then show ?thesis by (simp add: n_def)
qed

lemma normalize_path_not_slash:
  assumes "\<not> isAbsolute origin p"
  shows "take 1 (normalize_path origin p) \<noteq> ''/''"
proof -
  have ok: "\<forall>s \<in> set (norm_segs origin p). segment_ok s" by (rule norm_segs_segment_ok)
  show ?thesis
  proof (cases "norm_segs origin p = []")
    case True
    then show ?thesis using assms by (simp add: normalize_path_shape)
  next
    case False
    then obtain c cs where "array_join (norm_segs origin p) ''/'' = c # cs" "c \<noteq> slash"
      using array_join_hd [OF ok False] by (cases "array_join (norm_segs origin p) ''/''") auto
    then show ?thesis using assms False by (simp add: normalize_path_shape slash_def)
  qed
qed

text \<open>
  An origin of the form \<^verbatim>\<open>scheme://host\<close> has two adjacent separators; the
  normalization of a relative path has none, so such an origin is never its prefix.
\<close>

lemma redundantSep_Cons:
  "redundantSep (a # ys) \<longleftrightarrow> (isSep a \<and> ys \<noteq> [] \<and> isSep (hd ys)) \<or> redundantSep ys"
  by (cases ys) simp_all

lemma redundantSep_run:
  assumes "slash \<notin> set x" and "backslash \<notin> set x"
  shows "redundantSep (x @ ys) \<longleftrightarrow> redundantSep ys"
  using assms
proof (induction x)
  case Nil
  then show ?case by simp
next
  case (Cons a x)
  then have "\<not> isSep a" by (auto simp add: isSep_def)
  then show ?case using Cons by (simp add: redundantSep_Cons)
qed

lemma array_join_hd_sep:
  assumes "\<forall>s \<in> set ss. segment_ok s" and "ss \<noteq> []"
  shows "\<not> isSep (hd (array_join ss ''/'' @ suffix))"
proof -
  obtain x xs where ss: "ss = x # xs" using assms(2) by (cases ss) auto
  then obtain c cs where x: "x = c # cs" "c \<noteq> slash" "c \<noteq> backslash"
    using assms(1) by (cases x) (auto simp add: segment_ok_def)
  have "hd (array_join ss ''/'' @ suffix) = c"
    unfolding ss x by (cases xs) simp_all
  then show ?thesis using x by (simp add: isSep_def)
qed

lemma array_join_not_redundant:
  assumes "\<forall>s \<in> set ss. segment_ok s" and "\<not> redundantSep suffix"
  shows "\<not> redundantSep (array_join ss ''/'' @ suffix)"
  using assms
proof (induction ss "''/''" rule: array_join.induct)
  case 1
  then show ?case by simp
next
  case (2 x)
  then show ?case by (simp add: redundantSep_run segment_ok_def)
next
  case (3 x y ys)
  have x: "slash \<notin> set x" "backslash \<notin> set x"
    using "3.prems"(1) by (simp_all add: segment_ok_def)
  have ok: "\<forall>s \<in> set (y # ys). segment_ok s" using "3.prems"(1) by simp
  have IH: "\<not> redundantSep (array_join (y # ys) ''/'' @ suffix)"
    using ok "3.prems"(2) by (rule "3.hyps")
  have hd: "\<not> isSep (hd (array_join (y # ys) ''/'' @ suffix))"
    using ok by (rule array_join_hd_sep) simp
  have "redundantSep (array_join (x # y # ys) ''/'' @ suffix)
      \<longleftrightarrow> redundantSep (CHR ''/'' # (array_join (y # ys) ''/'' @ suffix))"
    using redundantSep_run [OF x, of "CHR ''/'' # (array_join (y # ys) ''/'' @ suffix)"] by simp
  then show ?case using IH hd by (simp add: redundantSep_Cons)
qed

lemma redundantSep_take: "redundantSep (take k xs) \<Longrightarrow> redundantSep xs"
proof (induction xs arbitrary: k)
  case Nil
  then show ?case by simp
next
  case (Cons a ys)
  show ?case
  proof (cases k)
    case 0
    then show ?thesis using Cons.prems by simp
  next
    case (Suc k')
    then have "(isSep a \<and> take k' ys \<noteq> [] \<and> isSep (hd (take k' ys)))
        \<or> redundantSep (take k' ys)"
      using Cons.prems by (simp add: redundantSep_Cons)
    then show ?thesis
    proof
      assume h: "isSep a \<and> take k' ys \<noteq> [] \<and> isSep (hd (take k' ys))"
      then have "ys \<noteq> []" "hd (take k' ys) = hd ys" by (cases ys; cases k'; simp)+
      then show ?thesis using h by (simp add: redundantSep_Cons)
    next
      assume "redundantSep (take k' ys)"
      then have "redundantSep ys" by (rule Cons.IH)
      then show ?thesis by (simp add: redundantSep_Cons)
    qed
  qed
qed

lemma normalize_path_not_redundant:
  assumes "\<not> isAbsolute origin p"
  shows "\<not> redundantSep (normalize_path origin p)"
proof -
  have ok: "\<forall>s \<in> set (norm_segs origin p). segment_ok s" by (rule norm_segs_segment_ok)
  have "\<not> redundantSep (array_join (norm_segs origin p) ''/'' @ suffix)"
    if "suffix = [] \<or> suffix = ''/''" for suffix
    using ok that by (intro array_join_not_redundant) auto
  then have "\<not> redundantSep (array_join (norm_segs origin p) ''/'' @ [])"
    and "\<not> redundantSep (array_join (norm_segs origin p) ''/'' @ ''/'')"
    by blast+
  then show ?thesis
    using assms by (simp add: normalize_path_shape isSep_def slash_def backslash_def)
qed

lemma origin_not_prefix:
  assumes "redundantSep origin" and "\<not> isAbsolute origin p"
  shows "\<not> startsWith (normalize_path origin p) origin"
proof
  assume "startsWith (normalize_path origin p) origin"
  then have "redundantSep (take (length origin) (normalize_path origin p))"
    using assms(1) by (simp add: startsWith_def)
  then have "redundantSep (normalize_path origin p)" by (rule redundantSep_take)
  then show False using normalize_path_not_redundant [OF assms(2)] by simp
qed

text \<open>
  C6, amended: \<^verbatim>\<open>normalize(normalize(p)) == normalize(p)\<close> for every path string
  \<open>p\<close> and origin such that \<open>p\<close> is absolute or \<^verbatim>\<open>normalize(p)\<close> does not begin
  with the origin string; the latter holds whenever the origin has two adjacent
  separators.
\<close>

theorem C6_normalize_idempotent:
  assumes "isAbsolute origin p \<or> \<not> startsWith (normalize_path origin p) origin
    \<or> redundantSep origin"
  shows "normalize_path origin (normalize_path origin p) = normalize_path origin p"
proof (rule normalize_path_again)
  show "isAbsolute origin (normalize_path origin p) = isAbsolute origin p"
  proof (cases "isAbsolute origin p")
    case True
    then have "startsWith (normalize_path origin p) ''/''"
      by (simp add: normalize_path_shape startsWith_def)
    then show ?thesis
      using True
      by (cases "normalize_path origin p") (simp_all add: isAbsolute_def startsWith_def slash_def)
  next
    case False
    then have "\<not> startsWith (normalize_path origin p) origin"
      using assms origin_not_prefix [of origin p] by blast
    moreover have "take 1 (normalize_path origin p) \<noteq> ''/''"
      using False by (rule normalize_path_not_slash)
    ultimately show ?thesis
      using False by (cases "normalize_path origin p") (simp_all add: isAbsolute_def slash_def)
  qed
qed

text \<open>
  C6, as stated, fails: with the origin \<^verbatim>\<open>null\<close> (the origin of an opaque location)
  the relative path \<^verbatim>\<open>./null\<close> normalizes to \<^verbatim>\<open>null\<close>, which begins with the
  origin, is classified absolute and normalizes to \<^verbatim>\<open>/null\<close>.
\<close>

theorem C6_normalize_idempotent_counterexample:
  "normalize_path ''null'' ''./null'' = ''null'' \<and>
   normalize_path ''null'' (normalize_path ''null'' ''./null'') = ''/null'' \<and>
   normalize_path ''null'' (normalize_path ''null'' ''./null'') \<noteq> normalize_path ''null'' ''./null''"
proof -
  have s1: "pathSplit ''./null'' False = [''.'', ''null'']"
    and s2: "pathSplit ''null'' False = [''null'']"
    by (simp_all add: pathSplit_def slash_def backslash_def)
  have a: "\<not> isAbsolute ''null'' ''./null''" "isAbsolute ''null'' ''null''"
    by (simp_all add: isAbsolute_def startsWith_def slash_def)
  have n1: "normalize_path ''null'' ''./null'' = ''null''"
    by (simp add: normalize_path_def s1 a endsWith_def normalize_step_def)
  have n2: "normalize_path ''null'' ''null'' = ''/null''"
    by (simp add: normalize_path_def s2 a endsWith_def normalize_step_def)
  show ?thesis by (simp add: n1 n2)
qed

text \<open>C6, amended, at the spec's scenario \<^verbatim>\<open>a//b/../c/./\<close>.\<close>

theorem C6_normalize_idempotent_witness:
  "redundantSep ''http://localhost'' \<and>
   \<not> startsWith (normalize_path ''null'' ''a//b/../c/./'') ''null'' \<and>
   normalize_path ''http://localhost'' ''a//b/../c/./'' = ''a/c/'' \<and>
   normalize_path ''http://localhost'' (normalize_path ''http://localhost'' ''a//b/../c/./'')
     = ''a/c/'' \<and>
   normalize_path ''null'' (normalize_path ''null'' ''a//b/../c/./'') = ''a/c/''"
proof -
  have s: "pathSplit ''a//b/../c/./'' False = [''a'', ''b'', ''..'', ''c'', ''.'']"
    by (simp add: pathSplit_def slash_def backslash_def)
  have a: "\<not> isAbsolute ''http://localhost'' ''a//b/../c/./''"
    "\<not> isAbsolute ''null'' ''a//b/../c/./''"
    by (simp_all add: isAbsolute_def startsWith_def slash_def)
  have n: "normalize_path ''http://localhost'' ''a//b/../c/./'' = ''a/c/''"
    "normalize_path ''null'' ''a//b/../c/./'' = ''a/c/''"
    by (simp_all add: normalize_path_def s a endsWith_def normalize_step_def)
  have r: "redundantSep ''http://localhost''"
    by (simp add: isSep_def slash_def)
  have h: "\<not> startsWith (normalize_path ''null'' ''a//b/../c/./'') ''null''"
    by (simp add: n startsWith_def)
  have 1: "normalize_path ''http://localhost''
      (normalize_path ''http://localhost'' ''a//b/../c/./'')
      = normalize_path ''http://localhost'' ''a//b/../c/./''"
    using r by (intro C6_normalize_idempotent) blast
  have 2: "normalize_path ''null'' (normalize_path ''null'' ''a//b/../c/./'')
      = normalize_path ''null'' ''a//b/../c/./''"
    using h by (intro C6_normalize_idempotent) blast
  show ?thesis
    using r h n 1 2 by simp
qed

section \<open>The separator of produced paths\<close>

lemma pathSplit_loop_no_backslash:
  assumes "\<forall>s \<in> set arr. backslash \<notin> set s" and "backslash \<notin> set current"
  shows "\<forall>s \<in> set (pathSplit_loop k path arr current). backslash \<notin> set s"
  using assms
proof (induction path arbitrary: arr current)
  case Nil
  then show ?case by simp
next
  case (Cons c cs)
  show ?case
  proof (cases "c = slash \<or> c = backslash")
    case True
    have 1: "\<forall>s \<in> set (pathSplit_loop k cs (arr @ [current]) []). backslash \<notin> set s"
      using Cons.prems by (intro Cons.IH) simp_all
    have 2: "\<forall>s \<in> set (pathSplit_loop k cs arr current). backslash \<notin> set s"
      using Cons.prems by (intro Cons.IH) simp_all
    show ?thesis using True 1 2 by simp
  next
    case False
    have "\<forall>s \<in> set (pathSplit_loop k cs arr (current @ [c])). backslash \<notin> set s"
      using Cons.prems False by (intro Cons.IH) auto
    then show ?thesis using False by simp
  qed
qed

lemma pathSplit_no_backslash: "s \<in> set (pathSplit path k) \<Longrightarrow> backslash \<notin> set s"
  using pathSplit_loop_no_backslash [of "[]" "[]" k path] by (simp add: pathSplit_def)

lemma array_join_no_backslash:
  "\<forall>s \<in> set ss. backslash \<notin> set s \<Longrightarrow> backslash \<notin> set (array_join ss ''/'')"
  by (induction ss "''/''" rule: array_join.induct) (simp_all add: backslash_def)

lemma segment_ok_no_backslash: "\<forall>s \<in> set ss. segment_ok s \<Longrightarrow> \<forall>s \<in> set ss. backslash \<notin> set s"
  by (simp add: segment_ok_def)

lemma normalize_path_no_backslash: "backslash \<notin> set (normalize_path origin p)"
proof -
  have "backslash \<notin> set (array_join (norm_segs origin p) ''/'')"
    by (intro array_join_no_backslash segment_ok_no_backslash norm_segs_segment_ok)
  then show ?thesis
    by (simp add: normalize_path_shape) (simp add: backslash_def)
qed

lemma join_no_backslash: "backslash \<notin> set (join origin ps)"
  by (simp add: join_def normalize_path_no_backslash) (simp add: backslash_def)

lemma resolve_no_backslash: "backslash \<notin> set (resolve origin pathname ps)"
proof -
  have "backslash \<notin> set (array_join (shift_dots (pathSplit x False)) ''/'')" for x
    using set_shift_dots [of "pathSplit x False"] pathSplit_no_backslash [of _ x False]
    by (intro array_join_no_backslash) blast
  then show ?thesis
    by (cases "resolve_scan origin ps (length ps)") (simp add: resolve_def Let_def backslash_def)
qed

lemma set_pop_empty: "set (pop_empty arr) \<subseteq> set arr"
proof (induction arr rule: pop_empty.induct)
  case (1 arr)
  show ?case
  proof (cases "arr \<noteq> [] \<and> last arr = []")
    case True
    then have "set (pop_empty (butlast arr)) \<subseteq> set (butlast arr)" by (rule "1.IH")
    moreover have "set (butlast arr) \<subseteq> set arr" by (auto dest: in_set_butlastD)
    moreover have "pop_empty arr = pop_empty (butlast arr)"
      using True by (subst pop_empty.simps) simp
    ultimately show ?thesis by simp
  next
    case False
    then have "pop_empty arr = arr" by (subst pop_empty.simps) auto
    then show ?thesis by simp
  qed
qed

lemma dirname_no_backslash: "backslash \<notin> set (dirname origin p)"
proof -
  define arr0 where "arr0 = pop_empty (pathSplit p True)"
  define arr where "arr = (if length arr0 \<noteq> 0 then butlast arr0 else arr0)"
  have "set arr \<subseteq> set arr0" by (auto simp add: arr_def dest: in_set_butlastD)
  also have "\<dots> \<subseteq> set (pathSplit p True)" unfolding arr0_def by (rule set_pop_empty)
  finally have "\<forall>s \<in> set arr. backslash \<notin> set s"
    using pathSplit_no_backslash [of _ p True] by blast
  then have j: "backslash \<notin> set (array_join arr ''/'')" by (rule array_join_no_backslash)
  have "dirname origin p =
     (if isAbsolute origin p then
        (if take 1 (array_join arr ''/'') = ''/'' then array_join arr ''/''
         else ''/'' @ array_join arr ''/'')
      else (if array_join arr ''/'' = [] then ''.'' else array_join arr ''/''))"
    by (simp add: dirname_def arr_def arr0_def Let_def)
  then show ?thesis using j by (simp add: backslash_def)
qed

lemma pop_or_empty_no_backslash: "backslash \<notin> set (pop_or_empty (pathSplit p False))"
  using pathSplit_no_backslash [of "last (pathSplit p False)" p False]
  by (simp add: pop_or_empty_def)

lemma basename_no_backslash: "backslash \<notin> set (basename p ext)"
proof (cases "fullSlash p")
  case True
  then have "backslash \<notin> set p" by (auto simp add: fullSlash_iff slash_def backslash_def)
  then show ?thesis using True by (simp add: basename_def)
next
  case False
  have "backslash \<notin> set (take n (pop_or_empty (pathSplit p False)))" for n
    using pop_or_empty_no_backslash [of p] by (blast dest: in_set_takeD)
  then show ?thesis
    using False pop_or_empty_no_backslash [of p]
    by (simp add: basename_def Let_def split: option.split)
qed

lemma extname_no_backslash: "backslash \<notin> set (extname p)"
proof -
  have "backslash \<notin> set (drop n (pop_or_empty (pathSplit p False)))" for n
    using pop_or_empty_no_backslash [of p] by (blast dest: in_set_dropD)
  then show ?thesis by (simp add: extname_def Let_def)
qed

lemma hexDigit_no_backslash: "hexDigit n \<noteq> backslash"
proof -
  have "hexDigit n \<in> set ''0123456789ABCDEF''"
    unfolding hexDigit_def by (rule nth_mem) simp
  then show ?thesis by (auto simp add: backslash_def)
qed

lemma Encode_no_backslash: "backslash \<notin> set u \<Longrightarrow> backslash \<notin> set (Encode p u)"
proof (induction p)
  case Nil
  then show ?case by simp
next
  case (Cons c cs)
  have "backslash \<notin> set (percentEncode c)"
    using hexDigit_no_backslash [of "of_char c div 16"] hexDigit_no_backslash [of "of_char c mod 16"]
    by (auto simp add: percentEncode_def backslash_def)
  then show ?case using Cons by auto
qed

lemma escape_no_backslash: "backslash \<notin> set (escape p)"
  unfolding escape_def encodeURI_def
  by (rule Encode_no_backslash)
     (simp add: uriReserved_def uriUnescaped_def uriAlpha_def decimalDigit_def uriMark_def
       backslash_def)

lemma format_no_backslash:
  assumes "backslash \<notin> set (orEmpty (format_dir fi))" and "backslash \<notin> set (format_base fi)"
  shows "backslash \<notin> set (format fi)"
proof (cases "truthy (format_dir fi)")
  case False
  then show ?thesis using assms by (simp add: format_def)
next
  case True
  then obtain d where d: "format_dir fi = Some d" "d \<noteq> []"
    by (cases "format_dir fi") (simp_all add: truthy_def)
  have "format fi = (if endsWith d ''/'' then d @ format_base fi else d @ ''/'' @ format_base fi)"
    using format_with_dir [OF d] by simp
  then show ?thesis using assms d by (simp add: orEmpty_def backslash_def)
qed

text \<open>
  C2, as stated, fails: \<^verbatim>\<open>format\<close> copies \<^verbatim>\<open>dir\<close> and \<^verbatim>\<open>base\<close> as they
  are, so a backslash in the directory reaches the produced path.
\<close>

theorem C2_separator_counterexample:
  "format \<lparr>fi_root = None, fi_dir = Some [CHR ''a'', CHR 0x5C, CHR ''b''], fi_base = Some ''c'',
      fi_ext = None, fi_name = None\<rparr> = [CHR ''a'', CHR 0x5C, CHR ''b'', CHR ''/'', CHR ''c''] \<and>
   CHR 0x5C \<in> set (format \<lparr>fi_root = None, fi_dir = Some [CHR ''a'', CHR 0x5C, CHR ''b''],
      fi_base = Some ''c'', fi_ext = None, fi_name = None\<rparr>)"
  by (simp add: format_def format_dir_def format_base_def nullish_def orEmpty_def truthy_def
      endsWith_def startsWith_def)

text \<open>
  C2, amended: for every input, the strings produced by \<^verbatim>\<open>normalize\<close>,
  \<^verbatim>\<open>join\<close>, \<^verbatim>\<open>resolve\<close>, \<^verbatim>\<open>relative\<close>, \<^verbatim>\<open>dirname\<close>,
  \<^verbatim>\<open>basename\<close>, \<^verbatim>\<open>extname\<close>, \<^verbatim>\<open>escape\<close> and the five fields of
  \<^verbatim>\<open>parse\<close> contain no backslash; the string produced by \<^verbatim>\<open>format\<close> contains
  no backslash whenever the directory and the base it is given contain none.
\<close>

theorem C2_no_backslash:
  "backslash \<notin> set (normalize_path origin p) \<and>
   backslash \<notin> set (join origin ps) \<and>
   backslash \<notin> set (resolve origin pathname ps) \<and>
   backslash \<notin> set (relative origin a b) \<and>
   backslash \<notin> set (dirname origin p) \<and>
   backslash \<notin> set (basename p ext) \<and>
   backslash \<notin> set (extname p) \<and>
   backslash \<notin> set (pp_root (parse origin p)) \<and>
   backslash \<notin> set (pp_dir (parse origin p)) \<and>
   backslash \<notin> set (pp_base (parse origin p)) \<and>
   backslash \<notin> set (pp_ext (parse origin p)) \<and>
   backslash \<notin> set (pp_name (parse origin p)) \<and>
   backslash \<notin> set (escape p) \<and>
   (backslash \<notin> set (orEmpty (format_dir fi)) \<and> backslash \<notin> set (format_base fi)
      \<longrightarrow> backslash \<notin> set (format fi))"
proof -
  have "backslash \<notin> set (pp_root (parse origin p))"
    by (simp add: parse_def Let_def backslash_def)
  moreover have "backslash \<notin> set (pp_dir (parse origin p))"
    by (simp add: parse_def Let_def dirname_no_backslash)
  moreover have "backslash \<notin> set (pp_base (parse origin p))"
    by (simp add: parse_def Let_def basename_no_backslash)
  moreover have "backslash \<notin> set (pp_ext (parse origin p))"
    by (simp add: parse_def Let_def extname_no_backslash)
  moreover have "backslash \<notin> set (pp_name (parse origin p))"
    by (simp add: parse_def Let_def basename_no_backslash)
  moreover have "backslash \<notin> set (relative origin a b)"
    unfolding relative_def by (rule join_no_backslash)
  ultimately show ?thesis
    using normalize_path_no_backslash join_no_backslash resolve_no_backslash
      dirname_no_backslash basename_no_backslash extname_no_backslash escape_no_backslash
      format_no_backslash
    by blast
qed

text \<open>
  C2, amended, at a path that uses the backslash as its separator and at a record
  without backslashes.
\<close>

theorem C2_no_backslash_witness:
  "normalize_path ''http://localhost'' [CHR ''a'', CHR 0x5C, CHR ''b''] = ''a/b'' \<and>
   backslash \<notin> set (normalize_path ''http://localhost'' [CHR ''a'', CHR 0x5C, CHR ''b'']) \<and>
   backslash \<notin> set (format_base \<lparr>fi_root = None, fi_dir = Some ''a/b'', fi_base = Some ''c'',
      fi_ext = None, fi_name = None\<rparr>) \<and>
   backslash \<notin> set (format \<lparr>fi_root = None, fi_dir = Some ''a/b'', fi_base = Some ''c'',
      fi_ext = None, fi_name = None\<rparr>)"
proof -
  have s: "pathSplit [CHR ''a'', CHR 0x5C, CHR ''b''] False = [''a'', ''b'']"
    by (simp add: pathSplit_def slash_def backslash_def)
  have a: "\<not> isAbsolute ''http://localhost'' [CHR ''a'', CHR 0x5C, CHR ''b'']"
    by (simp add: isAbsolute_def startsWith_def slash_def)
  have n: "normalize_path ''http://localhost'' [CHR ''a'', CHR 0x5C, CHR ''b''] = ''a/b''"
    by (simp add: normalize_path_def s a endsWith_def normalize_step_def)
  have h: "backslash \<notin> set (orEmpty (format_dir \<lparr>fi_root = None, fi_dir = Some ''a/b'',
      fi_base = Some ''c'', fi_ext = None, fi_name = None\<rparr>))"
    "backslash \<notin> set (format_base \<lparr>fi_root = None, fi_dir = Some ''a/b'', fi_base = Some ''c'',
      fi_ext = None, fi_name = None\<rparr>)"
    by (simp_all add: format_dir_def format_base_def nullish_def orEmpty_def backslash_def)
  show ?thesis
    using C2_no_backslash [of "''http://localhost''" "[CHR ''a'', CHR 0x5C, CHR ''b'']" "[]" "[]"
        "[]" "[]" None "\<lparr>fi_root = None, fi_dir = Some ''a/b'', fi_base = Some ''c'',
      fi_ext = None, fi_name = None\<rparr>"] h n
    by simp
qed

section \<open>The round trip of parse and format\<close>

lemma pathSplit_loop_acc:
  "pathSplit_loop k rest arr cur = arr @ pathSplit_loop k rest [] cur"
proof (induction rest arbitrary: arr cur)
  case Nil
  then show ?case by simp
next
  case (Cons c cs)
  show ?case
  proof (cases "c = slash \<or> c = backslash")
    case sep: True
    show ?thesis
    proof (cases "cur \<noteq> [] \<or> k")
      case True
      have "pathSplit_loop k cs (arr @ [cur]) [] = (arr @ [cur]) @ pathSplit_loop k cs [] []"
        by (rule Cons.IH)
      moreover have "pathSplit_loop k cs [cur] [] = [cur] @ pathSplit_loop k cs [] []"
        by (rule Cons.IH)
      ultimately show ?thesis using sep True by simp
    next
      case False
      have "pathSplit_loop k cs arr cur = arr @ pathSplit_loop k cs [] cur"
        by (rule Cons.IH)
      then show ?thesis using sep False by simp
    qed
  next
    case False
    have "pathSplit_loop k cs arr (cur @ [c]) = arr @ pathSplit_loop k cs [] (cur @ [c])"
      by (rule Cons.IH)
    then show ?thesis using False by simp
  qed
qed

lemma redundantSep_tail: "\<not> redundantSep (c # cs) \<Longrightarrow> \<not> redundantSep cs"
  by (cases cs) simp_all

lemma redundantSep_head:
  "\<not> redundantSep (c # cs) \<Longrightarrow> isSep c \<Longrightarrow> cs \<noteq> [] \<Longrightarrow> \<not> isSep (hd cs)"
  by (cases cs) simp_all

lemma endsWith_slash_tail: "\<not> endsWith (c # cs) ''/'' \<Longrightarrow> cs \<noteq> [] \<Longrightarrow> \<not> endsWith cs ''/''"
  by (simp add: endsWith_slash)

lemma array_join_Cons_nonempty:
  "xs \<noteq> [] \<Longrightarrow> array_join (x # xs) sep = x @ sep @ array_join xs sep"
  by (cases xs) simp_all

lemma pathSplit_loop_clean:
  assumes "\<not> redundantSep rest" and "\<not> endsWith rest ''/''" and "backslash \<notin> set rest"
    and "cur \<noteq> [] \<or> (rest \<noteq> [] \<and> hd rest \<noteq> slash)"
  shows "array_join (pathSplit_loop k rest [] cur) ''/'' = cur @ rest
       \<and> pathSplit_loop False rest [] cur = pathSplit_loop k rest [] cur"
  using assms
proof (induction rest arbitrary: cur)
  case Nil
  then show ?case by simp
next
  case (Cons c cs)
  have nb: "c \<noteq> backslash" "backslash \<notin> set cs" using Cons.prems(3) by auto
  have nr: "\<not> redundantSep cs" using Cons.prems(1) by (rule redundantSep_tail)
  show ?case
  proof (cases "c = slash")
    case True
    then have cur: "cur \<noteq> []" using Cons.prems(4) by simp
    have cs: "cs \<noteq> []" using Cons.prems(2) True by (auto simp add: endsWith_slash)
    have ne: "\<not> endsWith cs ''/''" using Cons.prems(2) cs by (rule endsWith_slash_tail)
    have "\<not> isSep (hd cs)"
      using Cons.prems(1) _ cs by (rule redundantSep_head) (simp add: isSep_def True)
    then have hd: "hd cs \<noteq> slash" by (simp add: isSep_def)
    have IH: "array_join (pathSplit_loop k cs [] []) ''/'' = [] @ cs
        \<and> pathSplit_loop False cs [] [] = pathSplit_loop k cs [] []"
      using nr ne nb(2) cs hd by (intro Cons.IH) simp_all
    from IH have IH1: "array_join (pathSplit_loop k cs [] []) ''/'' = cs"
      by (elim conjE) simp
    from IH have IH2: "pathSplit_loop False cs [] [] = pathSplit_loop k cs [] []"
      by (elim conjE)
    have X: "pathSplit_loop k cs [] [] \<noteq> []" using cs IH1 by auto
    have 1: "pathSplit_loop k (c # cs) [] cur = cur # pathSplit_loop k cs [] []"
      using True cur pathSplit_loop_acc [of k cs "[cur]" "[]"] by simp
    have 2: "pathSplit_loop False (c # cs) [] cur = cur # pathSplit_loop False cs [] []"
      using True cur pathSplit_loop_acc [of False cs "[cur]" "[]"] by simp
    have "array_join (cur # pathSplit_loop k cs [] []) ''/'' = cur @ ''/'' @ cs"
      using X by (simp add: array_join_Cons_nonempty IH1)
    then show ?thesis using 1 2 IH2 True by (simp add: slash_def)
  next
    case False
    have IH: "array_join (pathSplit_loop k cs [] (cur @ [c])) ''/'' = (cur @ [c]) @ cs
        \<and> pathSplit_loop False cs [] (cur @ [c]) = pathSplit_loop k cs [] (cur @ [c])"
    proof (cases "cs = []")
      case True
      then show ?thesis by simp
    next
      case ne: False
      have "\<not> endsWith cs ''/''" using Cons.prems(2) ne by (rule endsWith_slash_tail)
      then show ?thesis using nr nb(2) by (intro Cons.IH) simp_all
    qed
    then show ?thesis using False nb(1) by simp
  qed
qed

lemma pop_empty_id: "arr = [] \<or> last arr \<noteq> [] \<Longrightarrow> pop_empty arr = arr"
  by (subst pop_empty.simps) auto

lemma array_join_snoc:
  "xs \<noteq> [] \<Longrightarrow> array_join (xs @ [x]) sep = array_join xs sep @ sep @ x"
  by (induction xs sep rule: array_join.induct) simp_all

lemma array_join_butlast:
  assumes "2 \<le> length xs"
  shows "array_join xs sep = array_join (butlast xs) sep @ sep @ last xs"
proof -
  have "xs \<noteq> []" "butlast xs \<noteq> []" using assms by (cases xs; cases "tl xs"; auto)+
  then show ?thesis
    using array_join_snoc [of "butlast xs" "last xs" sep] by simp
qed

text \<open>The segments of a clean path, with and without empty segments kept.\<close>

lemma clean_absolute:
  assumes "\<not> redundantSep (slash # rest)" and "\<not> endsWith (slash # rest) ''/''"
    and "backslash \<notin> set rest"
  shows "array_join (pathSplit (slash # rest) False) ''/'' = rest"
    and "pathSplit (slash # rest) True = [] # pathSplit (slash # rest) False"
    and "pathSplit (slash # rest) False \<noteq> []"
proof -
  have ne: "rest \<noteq> []" using assms(2) by (auto simp add: endsWith_slash)
  have "\<not> isSep (hd rest)"
    using assms(1) _ ne by (rule redundantSep_head) (simp add: isSep_def)
  then have hd: "hd rest \<noteq> slash" by (simp add: isSep_def)
  have nr: "\<not> redundantSep rest" using assms(1) by (rule redundantSep_tail)
  have nt: "\<not> endsWith rest ''/''" using assms(2) ne by (rule endsWith_slash_tail)
  have c: "array_join (pathSplit_loop k rest [] []) ''/'' = [] @ rest
       \<and> pathSplit_loop False rest [] [] = pathSplit_loop k rest [] []" for k
    using nr nt assms(3) ne hd by (intro pathSplit_loop_clean) simp_all
  have F: "pathSplit (slash # rest) False = pathSplit_loop False rest [] []"
    by (simp add: pathSplit_def)
  have T: "pathSplit (slash # rest) True = [] # pathSplit_loop True rest [] []"
    using pathSplit_loop_acc [of True rest "[[]]" "[]"] by (simp add: pathSplit_def)
  show "array_join (pathSplit (slash # rest) False) ''/'' = rest"
    using c [of False] F by simp
  then show "pathSplit (slash # rest) False \<noteq> []" using ne by auto
  show "pathSplit (slash # rest) True = [] # pathSplit (slash # rest) False"
    using c [of True] F T by simp
qed

lemma clean_relative:
  assumes "\<not> redundantSep p" and "\<not> endsWith p ''/''" and "backslash \<notin> set p"
    and "p \<noteq> []" and "hd p \<noteq> slash"
  shows "array_join (pathSplit p False) ''/'' = p"
    and "pathSplit p True = pathSplit p False"
proof -
  have c: "array_join (pathSplit_loop k p [] []) ''/'' = [] @ p
       \<and> pathSplit_loop False p [] [] = pathSplit_loop k p [] []" for k
    using assms by (intro pathSplit_loop_clean) simp_all
  show "array_join (pathSplit p False) ''/'' = p"
    using c [of False] by (simp add: pathSplit_def)
  show "pathSplit p True = pathSplit p False"
    using c [of True] by (simp add: pathSplit_def)
qed

lemma last_segment_ok:
  assumes "pathSplit p False \<noteq> []"
  shows "segment_ok (last (pathSplit p False))"
  using pathSplit_segment_ok [of p] assms last_in_set by blast

lemma not_fullSlash:
  assumes "pathSplit p False \<noteq> []"
  shows "\<not> fullSlash p"
proof
  assume "fullSlash p"
  then have "set p \<subseteq> {slash}" by (simp add: fullSlash_iff)
  then have "pathSplit_loop False p [] [] = []"
    by (induction p) simp_all
  then show False using assms by (simp add: pathSplit_def)
qed

lemma basename_last:
  assumes "pathSplit p False \<noteq> []"
  shows "basename p None = last (pathSplit p False)"
  using assms not_fullSlash [OF assms] by (simp add: basename_def pop_or_empty_def)

lemma format_parse:
  assumes "dirname origin p = d" and "d \<noteq> []"
  shows "format (asFormatInput (parse origin p)) =
     (if endsWith d ''/'' then d @ basename p None else d @ ''/'' @ basename p None)"
proof -
  have "format_dir (asFormatInput (parse origin p)) = Some d"
    using assms(1) by (simp add: format_dir_def nullish_def asFormatInput_def parse_def Let_def)
  moreover have "format_base (asFormatInput (parse origin p)) = basename p None"
    by (simp add: format_base_def asFormatInput_def parse_def Let_def)
  ultimately show ?thesis
    using format_with_dir [of "asFormatInput (parse origin p)" d] assms(2) by simp
qed

lemma butlast_segment_ok:
  "\<forall>s \<in> set (butlast (pathSplit p False)). segment_ok s"
  using pathSplit_segment_ok [of p] by (blast dest: in_set_butlastD)

lemma dirname_clean_absolute:
  assumes "\<not> redundantSep (slash # rest)" and "\<not> endsWith (slash # rest) ''/''"
    and "backslash \<notin> set rest"
  shows "dirname origin (slash # rest) =
     ''/'' @ array_join (butlast (pathSplit (slash # rest) False)) ''/''"
proof -
  define X where "X = pathSplit (slash # rest) False"
  have X: "X \<noteq> []" and T: "pathSplit (slash # rest) True = [] # X"
    using clean_absolute(2,3) [OF assms] by (simp_all add: X_def)
  have "last X \<noteq> []"
    using last_segment_ok [of "slash # rest"] X by (simp add: X_def segment_ok_def)
  then have p: "pop_empty ([] # X) = [] # X"
    using X by (intro pop_empty_id) simp
  have b: "butlast ([] # X) = [] # butlast X" using X by simp
  have j: "array_join ([] # butlast X) ''/'' =
      (if butlast X = [] then [] else ''/'' @ array_join (butlast X) ''/'')"
    by (cases "butlast X") simp_all
  have a: "isAbsolute origin (slash # rest)" by (rule isAbsolute_slash)
  show ?thesis
    unfolding dirname_def T p X_def [symmetric] Let_def using a b j by simp
qed

lemma dirname_clean_relative:
  assumes "\<not> redundantSep p" and "\<not> endsWith p ''/''" and "backslash \<notin> set p"
    and "2 \<le> length (pathSplit p False)" and "\<not> isAbsolute origin p"
  shows "dirname origin p = array_join (butlast (pathSplit p False)) ''/''"
    and "array_join (pathSplit p False) ''/'' = p"
proof -
  define X where "X = pathSplit p False"
  have X: "X \<noteq> []" "butlast X \<noteq> []"
    using assms(4) unfolding X_def [symmetric] by (cases X; cases "tl X"; auto)+
  have pne: "p \<noteq> []" using X(1) by (auto simp add: X_def pathSplit_def)
  have hd: "hd p \<noteq> slash"
    using assms(5) pne by (cases p) (simp_all add: isAbsolute_def)
  have T: "pathSplit p True = X"
    using clean_relative(2) [OF assms(1-3) pne hd] by (simp add: X_def)
  show "array_join (pathSplit p False) ''/'' = p"
    using clean_relative(1) [OF assms(1-3) pne hd] .
  have "last X \<noteq> []"
    using last_segment_ok [of p] X(1) by (simp add: X_def segment_ok_def)
  then have p: "pop_empty X = X" by (intro pop_empty_id) simp
  have "array_join (butlast X) ''/'' \<noteq> []"
    using array_join_hd [OF butlast_segment_ok [of p]] X(2) by (simp add: X_def)
  then show "dirname origin p = array_join (butlast (pathSplit p False)) ''/''"
    unfolding dirname_def T p X_def [symmetric] Let_def using assms(5) X(1) by simp
qed

text \<open>
  C1, amended: for every path string \<open>p\<close> without backslash, without two adjacent
  separators and without a trailing slash, that either begins with a slash or has at
  least two segments and is not classified absolute, \<^verbatim>\<open>format(parse(p))\<close> is
  \<open>p\<close>.
\<close>

theorem C1_format_parse:
  assumes "\<not> redundantSep p" and "\<not> endsWith p ''/''" and "backslash \<notin> set p"
    and "startsWith p ''/'' \<or> (2 \<le> length (pathSplit p False) \<and> \<not> isAbsolute origin p)"
  shows "format (asFormatInput (parse origin p)) = p"
proof (cases "startsWith p ''/''")
  case True
  then obtain rest where p: "p = slash # rest"
    by (cases p) (simp_all add: startsWith_def slash_def)
  define X where "X = pathSplit p False"
  have nb: "backslash \<notin> set rest" using assms(3) p by simp
  have j: "array_join X ''/'' = rest" and X: "X \<noteq> []"
    using clean_absolute(1,3) [OF assms(1,2) [unfolded p] nb] by (simp_all add: X_def p)
  have d: "dirname origin p = ''/'' @ array_join (butlast X) ''/''"
    using dirname_clean_absolute [OF assms(1,2) [unfolded p] nb] by (simp add: X_def p)
  have base: "basename p None = last X"
    using basename_last [of p] X by (simp add: X_def)
  have f: "format (asFormatInput (parse origin p)) =
      (if endsWith (''/'' @ array_join (butlast X) ''/'') ''/''
       then (''/'' @ array_join (butlast X) ''/'') @ last X
       else (''/'' @ array_join (butlast X) ''/'') @ ''/'' @ last X)"
    using format_parse [OF d] base by simp
  show ?thesis
  proof (cases "butlast X = []")
    case True
    then have "X = [last X]" using X by (metis append_butlast_last_id append_Nil)
    then have "rest = last X" using j by (metis array_join.simps(2))
    then show ?thesis using f True by (simp add: p endsWith_def slash_def)
  next
    case False
    then have l: "2 \<le> length X" by (cases X; cases "tl X"; auto)
    have "last (array_join (butlast X) ''/'') \<noteq> slash" "array_join (butlast X) ''/'' \<noteq> []"
      using array_join_hd [OF butlast_segment_ok [of p]] False by (simp_all add: X_def)
    then have "\<not> endsWith (''/'' @ array_join (butlast X) ''/'') ''/''"
      by (simp add: endsWith_slash)
    moreover have "rest = array_join (butlast X) ''/'' @ ''/'' @ last X"
      using array_join_butlast [OF l, of "''/''"] j by simp
    ultimately show ?thesis using f by (simp add: p slash_def)
  qed
next
  case False
  then have h: "2 \<le> length (pathSplit p False)" "\<not> isAbsolute origin p"
    using assms(4) by simp_all
  define X where "X = pathSplit p False"
  have d: "dirname origin p = array_join (butlast X) ''/''"
    and j: "array_join X ''/'' = p"
    using dirname_clean_relative [OF assms(1-3) h] by (simp_all add: X_def)
  have X: "X \<noteq> []" "butlast X \<noteq> []"
    using h(1) unfolding X_def [symmetric] by (cases X; cases "tl X"; auto)+
  have dne: "array_join (butlast X) ''/'' \<noteq> []"
    and dl: "last (array_join (butlast X) ''/'') \<noteq> slash"
    using array_join_hd [OF butlast_segment_ok [of p]] X(2) by (simp_all add: X_def)
  have base: "basename p None = last X"
    using basename_last [of p] X(1) by (simp add: X_def)
  have "\<not> endsWith (array_join (butlast X) ''/'') ''/''"
    using dl by (simp add: endsWith_slash)
  then have "format (asFormatInput (parse origin p)) =
      array_join (butlast X) ''/'' @ ''/'' @ last X"
    using format_parse [OF d dne] base by simp
  also have "\<dots> = array_join X ''/''"
    using array_join_butlast [of X "''/''"] h(1) by (simp add: X_def)
  finally show ?thesis using j by simp
qed

text \<open>
  C1, as stated, fails: the one-segment relative path \<^verbatim>\<open>a\<close> has no redundant
  separator and no trailing slash, its directory is \<^verbatim>\<open>.\<close>, and
  \<^verbatim>\<open>format(parse("a"))\<close> is \<^verbatim>\<open>./a\<close>.
\<close>

theorem C1_format_parse_counterexample:
  "\<not> redundantSep ''a'' \<and> \<not> endsWith ''a'' ''/'' \<and>
   format (asFormatInput (parse ''http://localhost'' ''a'')) = ''./a'' \<and>
   format (asFormatInput (parse ''http://localhost'' ''a'')) \<noteq> ''a''"
proof -
  have s: "pathSplit ''a'' True = [''a'']" "pathSplit ''a'' False = [''a'']"
    by (simp_all add: pathSplit_def slash_def backslash_def)
  have p: "pop_empty [''a''] = [''a'']" by (rule pop_empty_id) simp
  have a: "\<not> isAbsolute ''http://localhost'' ''a''"
    by (simp add: isAbsolute_def startsWith_def slash_def)
  have d: "dirname ''http://localhost'' ''a'' = ''.''"
    by (simp add: dirname_def s p a)
  have b: "basename ''a'' None = ''a''"
    by (simp add: basename_def s pop_or_empty_def slash_def)
  have "format (asFormatInput (parse ''http://localhost'' ''a'')) = ''./a''"
    using format_parse [OF d] b by (simp add: endsWith_def)
  then show ?thesis by (simp add: endsWith_def)
qed

text \<open>C1, amended, at an absolute path and at a relative path of two segments.\<close>

theorem C1_format_parse_witness:
  "startsWith ''/a/b/c.txt'' ''/'' \<and> 2 \<le> length (pathSplit ''a/b'' False) \<and>
   format (asFormatInput (parse ''http://localhost'' ''/a/b/c.txt'')) = ''/a/b/c.txt'' \<and>
   format (asFormatInput (parse ''http://localhost'' ''a/b'')) = ''a/b''"
proof -
  have 1: "\<not> redundantSep ''/a/b/c.txt''" "\<not> endsWith ''/a/b/c.txt'' ''/''"
    "backslash \<notin> set ''/a/b/c.txt''" "startsWith ''/a/b/c.txt'' ''/''"
    by (simp_all add: isSep_def slash_def backslash_def endsWith_def startsWith_def)
  have s: "pathSplit ''a/b'' False = [''a'', ''b'']"
    by (simp add: pathSplit_def slash_def backslash_def)
  have 2: "\<not> redundantSep ''a/b''" "\<not> endsWith ''a/b'' ''/''" "backslash \<notin> set ''a/b''"
    "2 \<le> length (pathSplit ''a/b'' False)" "\<not> isAbsolute ''http://localhost'' ''a/b''"
    by (simp_all add: isSep_def slash_def backslash_def endsWith_def s isAbsolute_def
        startsWith_def)
  have f1: "format (asFormatInput (parse ''http://localhost'' ''/a/b/c.txt'')) = ''/a/b/c.txt''"
    using 1(1-3) by (rule C1_format_parse) (simp add: 1(4))
  have f2: "format (asFormatInput (parse ''http://localhost'' ''a/b'')) = ''a/b''"
    using 2(1-3) by (rule C1_format_parse) (simp add: 2(4,5))
  show ?thesis
    using 1(4) 2(4) f1 f2 by blast
qed

end
